theory Spec2Isabelle
  imports Main "HOL-Library.Word" "HOL-Library.Signed_Division" "HOL-Library.Multiset"
begin

unbundle bit_operations_syntax

section \<open>Bitboards\<close>

text \<open>
  A board is a \<open>uint64_t\<close>: bits 0..24 hold the first player's pieces, bits 25..49 the
  second player's, and the bits from 50 upwards the 1-indexed turn number. A mask has the
  same layout. Cell indices are the \<open>int i\<close> of the source; every caller passes
  \<open>0 \<le> i < 25\<close>, so they are natural numbers here.
\<close>

type_synonym u64 = "64 word"

definition INIT :: u64 where
  "INIT = push_bit 50 1"

text \<open>\<open>int who = (turn - 1) % 2\<close>, computed on \<open>uint64_t\<close>, so it is 0 or 1.\<close>

definition who :: "u64 \<Rightarrow> nat" where
  "who b = unat ((drop_bit 50 b - 1) mod 2)"

definition place :: "u64 \<Rightarrow> nat \<Rightarrow> u64" where
  "place b i =
     push_bit 50 (drop_bit 50 b + 1) OR (b AND 0x3ffffffffffff) OR push_bit (who b * 25 + i) 1"

definition pass :: "u64 \<Rightarrow> u64" where
  "pass b = push_bit 50 (drop_bit 50 b + 1) OR (b AND 0x3ffffffffffff)"

definition blocks :: "u64 list" where
  "blocks =
    [0x0000023, 0x0000047, 0x000008e, 0x000011c, 0x0000218,
     0x0000461, 0x00008e2, 0x00011c4, 0x0002388, 0x0004310,
     0x0008c20, 0x0011c40, 0x0023880, 0x0047100, 0x0086200,
     0x0118400, 0x0238800, 0x0471000, 0x08e2000, 0x10c4000,
     0x0308000, 0x0710000, 0x0e20000, 0x1c40000, 0x1880000]"

text \<open>
  \<open>mask\<close> of the source (the name is taken in HOL). \<open>!who\<close> is \<open>1 - who\<close>. The table is
  read at \<open>i\<close>; outside \<open>0..24\<close> the source reads out of bounds and \<open>!\<close> is unspecified.
\<close>

definition mask_b :: "u64 \<Rightarrow> nat \<Rightarrow> u64" where
  "mask_b m i =
     push_bit 50 (drop_bit 50 m + 1) OR (m AND 0x3ffffffffffff)
       OR push_bit ((1 - who m) * 25) (blocks ! i) OR push_bit (who m * 25 + i) 1"

text \<open>
  \<open>turn\<close> returns \<open>int\<close>: the \<open>uint64_t\<close> value \<open>(b >> 50) - 1\<close> converted to a 32-bit
  signed integer, so a stored turn of 0 reads as -1.
\<close>

definition turn :: "u64 \<Rightarrow> int" where
  "turn b = sint (ucast (drop_bit 50 b - 1) :: 32 word)"

text \<open>C's \<open>%\<close> on \<open>int\<close> truncates towards zero; that is \<open>smod\<close>.\<close>

definition turn_odd :: "u64 \<Rightarrow> bool" where
  "turn_odd b = (turn b smod 2 \<noteq> 0)"

definition popcount :: "u64 \<Rightarrow> int" where
  "popcount w = int (length (filter (bit w) [0..<64]))"

section \<open>Evaluation strategy: minimax\<close>

text \<open>\<open>slot_t\<close> is \<open>uint64_t\<close>: the board in the low 56 bits, the score biased by 25 above.\<close>

definition init_minimax :: "u64 \<Rightarrow> u64" where
  "init_minimax b =
     (let score = (if turn_odd b then 25 else - 25 :: int)
      in push_bit 56 (word_of_int (score + 25)) OR b)"

definition getboard_minimax :: "u64 \<Rightarrow> u64" where
  "getboard_minimax s = s AND 0xffffffffffffff"


definition getscore :: "u64 \<Rightarrow> int" where
  "getscore s = uint (drop_bit 56 s) - 25"


definition combine_minimax :: "u64 \<Rightarrow> u64 \<Rightarrow> u64" where
  "combine_minimax s0 s1 =
     (let v0 = getscore s0; v1 = getscore s1
      in if turn_odd (getboard_minimax s0)
         then (if v0 < v1 then s0 else s1)
         else (if v0 > v1 then s0 else s1))"

definition compare_minimax :: "u64 \<Rightarrow> u64 \<Rightarrow> int" where
  "compare_minimax s0 s1 =
     (let v0 = getscore s0; v1 = getscore s1
      in if turn_odd (getboard_minimax s0) then v0 - v1 else v1 - v0)"

section \<open>Evaluation strategy: tally\<close>

text \<open>The counters are \<open>int64_t\<close>; they are 64-bit words here, read with \<open>sint\<close>.\<close>

record tally_slot =
  board :: u64
  p1_wins :: u64
  p2_wins :: u64
  ties :: u64

definition init_tally :: "u64 \<Rightarrow> tally_slot" where
  "init_tally b = \<lparr>board = b, p1_wins = 0, p2_wins = 0, ties = 0\<rparr>"



definition score_tally :: "u64 \<Rightarrow> tally_slot" where
  "score_tally b =
     (let p0 = popcount (b AND 0x1ffffff);
          p1 = popcount (drop_bit 25 b AND 0x1ffffff)
      in \<lparr>board = b,
          p1_wins = (if p0 > p1 then 1 else 0),
          p2_wins = (if p1 > p0 then 1 else 0),
          ties = (if p1 = p0 then 1 else 0)\<rparr>)"

definition combine_tally :: "tally_slot \<Rightarrow> tally_slot \<Rightarrow> tally_slot" where
  "combine_tally s0 s1 =
     s0\<lparr>p1_wins := p1_wins s0 + p1_wins s1,
        p2_wins := p2_wins s0 + p2_wins s1,
        ties := ties s0 + ties s1\<rparr>"

definition compare_tally :: "tally_slot \<Rightarrow> tally_slot \<Rightarrow> int" where
  "compare_tally s0 s1 = 0"


section \<open>Symmetry\<close>

text \<open>\<open>transpose\<close> of the source (the name is taken by lists in HOL).\<close>

definition transpose_b :: "u64 \<Rightarrow> u64" where
  "transpose_b b =
     (drop_bit 16 b AND 0x00000020000010) OR
     (drop_bit 12 b AND 0x00000410000208) OR
     (drop_bit 8 b AND 0x00008208004104) OR
     (drop_bit 4 b AND 0x00104104082082) OR
     (drop_bit 0 b AND 0xfe082083041041) OR
     (push_bit 4 b AND 0x01041040820820) OR
     (push_bit 8 b AND 0x00820800410400) OR
     (push_bit 12 b AND 0x00410000208000) OR
     (push_bit 16 b AND 0x00200000100000)"

definition flipv :: "u64 \<Rightarrow> u64" where
  "flipv b =
     (drop_bit 20 b AND 0x0000003e00001f) OR
     (drop_bit 10 b AND 0x000007c00003e0) OR
     (drop_bit 0 b AND 0xfc00f800007c00) OR
     (push_bit 10 b AND 0x001f00000f8000) OR
     (push_bit 20 b AND 0x03e00001f00000)"

text \<open>\<open>c = c < b ? c : b\<close> is \<open>min c b\<close> on unsigned words.\<close>

definition canonicalize :: "u64 \<Rightarrow> u64" where
  "canonicalize b0 =
     (let c = b0;
          b = transpose_b b0; c = (if c < b then c else b);
          b = flipv b; c = (if c < b then c else b);
          b = transpose_b b; c = (if c < b then c else b);
          b = flipv b; c = (if c < b then c else b);
          b = transpose_b b; c = (if c < b then c else b);
          b = flipv b; c = (if c < b then c else b);
          b = transpose_b b; c = (if c < b then c else b)
      in c)"

text \<open>
  The permutations of bit positions that \<open>transpose\<close> and \<open>flipv\<close> perform: cell
  \<open>5 * r + c\<close> of either plane is read from cell \<open>5 * c + r\<close>, respectively from cell
  \<open>5 * (4 - r) + c\<close>; positions from 50 upwards stay.
\<close>

definition tperm :: "nat \<Rightarrow> nat" where
  "tperm n =
     (if n < 25 then 5 * (n mod 5) + n div 5
      else if n < 50 then 25 + (5 * ((n - 25) mod 5) + (n - 25) div 5)
      else n)"

definition fperm :: "nat \<Rightarrow> nat" where
  "fperm n =
     (if n < 25 then 5 * (4 - n div 5) + n mod 5
      else if n < 50 then 25 + (5 * (4 - (n - 25) div 5) + (n - 25) mod 5)
      else n)"

text \<open>The eight values that the local \<open>b\<close> of \<open>canonicalize\<close> takes, in order.\<close>

definition orbit8 :: "u64 \<Rightarrow> u64 list" where
  "orbit8 b0 =
     (let b1 = transpose_b b0; b2 = flipv b1; b3 = transpose_b b2; b4 = flipv b3;
          b5 = transpose_b b4; b6 = flipv b5; b7 = transpose_b b6
      in [b0, b1, b2, b3, b4, b5, b6, b7])"

text \<open>The orbit of a board under the group that \<open>transpose\<close> and \<open>flipv\<close> generate.\<close>

inductive_set sym_orbit :: "u64 \<Rightarrow> u64 set" for b :: u64 where
  self: "b \<in> sym_orbit b"
| tr: "x \<in> sym_orbit b \<Longrightarrow> transpose_b x \<in> sym_orbit b"
| fl: "x \<in> sym_orbit b \<Longrightarrow> flipv x \<in> sym_orbit b"

section \<open>Legality and termination rules\<close>

definition valid :: "u64 \<Rightarrow> nat \<Rightarrow> bool" where
  "valid m i =
     (if drop_bit 50 m = 1 then i \<noteq> 12
      else \<not> (drop_bit (who m * 25 + i) m AND 1 \<noteq> 0))"

definition nomoves :: "u64 \<Rightarrow> u64 \<Rightarrow> bool" where
  "nomoves b m =
     ((drop_bit (who b * 25) b OR drop_bit (who b * 25) m) AND 0x1ffffff = 0x1ffffff)"

definition iscomplete :: "u64 \<Rightarrow> u64 \<Rightarrow> bool" where
  "iscomplete b m =
     ((drop_bit 25 b OR drop_bit 25 m) AND 0x1ffffff = 0x1ffffff \<and>
      (drop_bit 0 b OR drop_bit 0 m) AND 0x1ffffff = 0x1ffffff)"

text \<open>
  \<open>derive\<close>: the first loop collects each player's cells in index order; the second
  replays them from \<open>INIT\<close> until the turn of the mask reaches the turn of the board.
  The second loop has no bound of its own, so it is a partial function: \<open>None\<close> is a loop
  that never ends.
\<close>

partial_function (option) derive_loop ::
  "u64 \<Rightarrow> nat list \<Rightarrow> nat list \<Rightarrow> nat \<Rightarrow> u64 \<Rightarrow> u64 option" where
  "derive_loop b moves0 moves1 i m =
     (if turn m < turn b
      then derive_loop b moves0 moves1 (i + 1)
             (let moves = (if i mod 2 = 0 then moves0 else moves1)
              in if i div 2 < length moves then mask_b m (moves ! (i div 2)) else pass m)
      else Some m)"

definition derive :: "u64 \<Rightarrow> u64 option" where
  "derive b =
     derive_loop b (filter (\<lambda>i. drop_bit i b AND 1 \<noteq> 0) [0..<25])
       (filter (\<lambda>i. drop_bit (i + 25) b AND 1 \<noteq> 0) [0..<25]) 0 INIT"

section \<open>Play\<close>

text \<open>
  Board and mask evolving in lockstep, with the number of plies played: a piece on a cell
  \<open>i < 25\<close> that \<open>valid\<close> accepts, or a pass at any time (the interactive loop of
  \<open>main\<close> accepts both).
\<close>

inductive lockstep :: "nat \<Rightarrow> u64 \<Rightarrow> u64 \<Rightarrow> bool" where
  start: "lockstep 0 INIT INIT"
| put: "lockstep n b m \<Longrightarrow> i < 25 \<Longrightarrow> valid m i \<Longrightarrow> lockstep (Suc n) (place b i) (mask_b m i)"
| skip: "lockstep n b m \<Longrightarrow> lockstep (Suc n) (pass b) (pass m)"

text \<open>
  Legal play, the game tree that \<open>eval\<close> walks: a piece on a cell that \<open>valid\<close>
  accepts; a pass only when \<open>nomoves\<close> holds; and no ply once the game is over.
\<close>

inductive legal :: "u64 \<Rightarrow> u64 \<Rightarrow> bool" where
  start: "legal INIT INIT"
| put: "legal b m \<Longrightarrow> \<not> iscomplete b m \<Longrightarrow> i < 25 \<Longrightarrow> valid m i \<Longrightarrow>
        legal (place b i) (mask_b m i)"
| skip: "legal b m \<Longrightarrow> \<not> iscomplete b m \<Longrightarrow> nomoves b m \<Longrightarrow> legal (pass b) (pass m)"

text \<open>The data-model invariant of a board with its mask.\<close>

definition planes_disjoint :: "u64 \<Rightarrow> bool" where
  "planes_disjoint b = (\<forall>i<25. \<not> (bit b i \<and> bit b (25 + i)))"

definition occupied_forbidden :: "u64 \<Rightarrow> u64 \<Rightarrow> bool" where
  "occupied_forbidden b m = (\<forall>i<25. bit b i \<or> bit b (25 + i) \<longrightarrow> bit m i \<and> bit m (25 + i))"

text \<open>The number of occupied cells of a board.\<close>

definition pieces :: "u64 \<Rightarrow> nat" where
  "pieces b = card {i. i < 25 \<and> (bit b i \<or> bit b (25 + i))}"

text \<open>
  The mask after \<open>j\<close> rounds of the second loop of \<open>derive\<close>, and what round \<open>q\<close>
  adds to the bits below bit 50.
\<close>

primrec replay :: "nat list \<Rightarrow> nat list \<Rightarrow> nat \<Rightarrow> u64" where
  "replay moves0 moves1 0 = INIT"
| "replay moves0 moves1 (Suc j) =
     (let moves = (if j mod 2 = 0 then moves0 else moves1)
      in if j div 2 < length moves then mask_b (replay moves0 moves1 j) (moves ! (j div 2))
         else pass (replay moves0 moves1 j))"

definition contrib :: "nat list \<Rightarrow> nat list \<Rightarrow> nat \<Rightarrow> nat \<Rightarrow> bool" where
  "contrib moves0 moves1 q k =
     (let moves = (if q mod 2 = 0 then moves0 else moves1)
      in q div 2 < length moves \<and>
         (k = (q mod 2) * 25 + moves ! (q div 2) \<or>
          (1 - q mod 2) * 25 \<le> k \<and> bit (blocks ! (moves ! (q div 2))) (k - (1 - q mod 2) * 25)))"

text \<open>The mask bits that the pieces of a board account for: each piece forbids its own
  cell to its owner and the cells of its block to the opponent.\<close>

definition mask_of :: "u64 \<Rightarrow> nat \<Rightarrow> bool" where
  "mask_of b k =
     (\<exists>c<25. bit b c \<and> (k = c \<or> 25 \<le> k \<and> bit (blocks ! c) (k - 25)) \<or>
             bit b (25 + c) \<and> (k = 25 + c \<or> bit (blocks ! c) k))"

section \<open>Word and bit lemmas\<close>

lemma m56: "(0xffffffffffffff :: u64) = mask 56"
  by (simp add: mask_eq_exp_minus_1)

lemma m50: "(0x3ffffffffffff :: u64) = mask 50"
  by (simp add: mask_eq_exp_minus_1)

lemma m25: "(0x1ffffff :: u64) = mask 25"
  by (simp add: mask_eq_exp_minus_1)


lemma bit_lt: "(b::u64) < 2 ^ n \<Longrightarrow> bit b k \<Longrightarrow> k < n"
  by (metis less_mask_eq bit_and_iff bit_mask_iff)



lemma smod2_int: "((x::int) smod 2 \<noteq> 0) = odd x"
  by (auto simp: signed_modulo_int_def sgn_if mod_2_eq_odd)

lemma odd_sint: "odd (sint (w :: 'a::len word)) = odd w"
  by (simp add: bit_signed_iff flip: bit_0)

lemma odd_unat: "odd (unat (w :: 'a::len word)) = odd w"
  by (simp add: bit_unsigned_iff flip: bit_0)

lemma odd_ucast: "odd (ucast (w :: 64 word) :: 32 word) = odd w"
  by (simp add: bit_ucast_iff flip: bit_0)

lemma turn_odd_iff: "turn_odd b = even (drop_bit 50 b)"
  by (simp add: turn_odd_def turn_def smod2_int odd_sint odd_ucast)

section \<open>Slots of the minimax strategy\<close>







text \<open>A minimax slot is its score byte above its 56-bit board, so two slots with the same
  board and the same score are the same word.\<close>

lemma slot_split: "(s::u64) = push_bit 56 (drop_bit 56 s) OR (s AND mask 56)"
  by (rule bit_eqI) (auto simp: bit_simps)

lemma slot_eqI:
  assumes "getboard_minimax s = getboard_minimax t" "getscore s = getscore t"
  shows "s = t"
proof -
  have "drop_bit 56 s = drop_bit 56 t"
    using assms(2) by (simp add: getscore_def word_uint_eq_iff)
  moreover have "s AND mask 56 = t AND mask 56"
    using assms(1) by (simp add: getboard_minimax_def m56)
  ultimately show ?thesis
    using slot_split [of s] slot_split [of t] by simp
qed

lemma combine_minimax_cases: "combine_minimax s0 s1 = s0 \<or> combine_minimax s0 s1 = s1"
  by (simp add: combine_minimax_def Let_def)

lemma getboard_combine_minimax:
  "getboard_minimax s0 = b \<Longrightarrow> getboard_minimax s1 = b \<Longrightarrow>
   getboard_minimax (combine_minimax s0 s1) = b"
  using combine_minimax_cases [of s0 s1] by auto

lemma getscore_combine_minimax:
  "getscore (combine_minimax s0 s1) =
     (if turn_odd (getboard_minimax s0) then min (getscore s0) (getscore s1)
      else max (getscore s0) (getscore s1))"
  by (simp add: combine_minimax_def Let_def)

lemma combine_minimax_commute:
  assumes "getboard_minimax z = b" "getboard_minimax x = b" "getboard_minimax y = b"
  shows "combine_minimax (combine_minimax z y) x = combine_minimax (combine_minimax z x) y"
proof (rule slot_eqI)
  show "getboard_minimax (combine_minimax (combine_minimax z y) x) =
        getboard_minimax (combine_minimax (combine_minimax z x) y)"
    using assms by (simp add: getboard_combine_minimax)
  show "getscore (combine_minimax (combine_minimax z y) x) =
        getscore (combine_minimax (combine_minimax z x) y)"
    using assms
    by (simp add: getscore_combine_minimax getboard_combine_minimax
          min.left_commute max.left_commute min.commute max.commute)
qed

lemma foldl_combine_minimax_perm:
  assumes "mset xs = mset ys" "getboard_minimax s = b" "\<forall>x\<in>set xs. getboard_minimax x = b"
  shows "foldl combine_minimax s xs = foldl combine_minimax s ys"
  unfolding foldl_conv_fold
  by (rule fold_permuted_eq [where P = "\<lambda>z. getboard_minimax z = b"])
     (use assms in \<open>auto simp: getboard_combine_minimax intro: combine_minimax_commute\<close>)

section \<open>Slots of the tally strategy\<close>

lemma combine_tally_commute:
  "combine_tally (combine_tally z y) x = combine_tally (combine_tally z x) y"
  by (simp add: combine_tally_def add.commute add.left_commute add.assoc)

lemma foldl_combine_tally_perm:
  assumes "mset xs = mset ys"
  shows "foldl combine_tally s xs = foldl combine_tally s ys"
  unfolding foldl_conv_fold
  by (rule fold_permuted_eq [where P = "\<lambda>z. True"])
     (use assms in \<open>auto simp: combine_tally_commute\<close>)

section \<open>The strategies' algebra\<close>

text \<open>
  Claim C5. In the minimax variant, for two slots labelled with a common parent board,
  \<open>combine\<close> returns one of the two, and its score is the larger one when the stored
  (1-indexed) turn of that board is odd, player A to move, and the smaller one when it is
  even, player B to move; \<open>compare\<close> is positive exactly when the second slot is strictly
  better than the first for that mover.
\<close>

theorem minimax_combine_compare_rational:
  assumes "getboard_minimax s0 = getboard_minimax s1"
  shows "combine_minimax s0 s1 \<in> {s0, s1} \<and>
    getscore (combine_minimax s0 s1) =
      (if odd (unat (drop_bit 50 (getboard_minimax s0)))
       then max (getscore s0) (getscore s1) else min (getscore s0) (getscore s1)) \<and>
    (0 < compare_minimax s0 s1) =
      (if odd (unat (drop_bit 50 (getboard_minimax s0)))
       then getscore s0 < getscore s1 else getscore s1 < getscore s0)"
  by (auto simp: combine_minimax_def compare_minimax_def turn_odd_iff Let_def odd_unat)

theorem minimax_combine_compare_rational_witness:
  "getboard_minimax INIT = getboard_minimax (push_bit 56 30 OR INIT) \<and>
   combine_minimax INIT (push_bit 56 30 OR INIT) \<in> {INIT, push_bit 56 30 OR INIT} \<and>
   getscore (combine_minimax INIT (push_bit 56 30 OR INIT)) = 5 \<and>
   0 < compare_minimax INIT (push_bit 56 30 OR INIT)"
proof -
  have h: "getboard_minimax INIT = getboard_minimax (push_bit 56 30 OR INIT)"
    by (simp add: getboard_minimax_def INIT_def)
  show ?thesis
    using h minimax_combine_compare_rational [OF h]
    by (simp add: getboard_minimax_def INIT_def getscore_def)
qed

text \<open>
  Claim C7. In both variants the fold of \<open>combine\<close> over sibling slots does not depend
  on their order: from the same start slot, any two lists with the same elements give the
  same final slot. The minimax variant needs the start slot and the siblings to carry one
  board label; the tally variant needs nothing.
\<close>

theorem combine_fold_order_independent:
  assumes "mset xs = mset ys"
    and "getboard_minimax s = b" and "\<forall>x\<in>set xs. getboard_minimax x = b"
    and "mset ts = mset us"
  shows "foldl combine_minimax s xs = foldl combine_minimax s ys \<and>
         foldl combine_tally t ts = foldl combine_tally t us"
  using assms foldl_combine_minimax_perm [of xs ys s b] foldl_combine_tally_perm [of ts us t]
  by simp

theorem combine_fold_order_independent_witness:
  "foldl combine_minimax (init_minimax INIT) [push_bit 56 30 OR INIT, push_bit 56 20 OR INIT] =
   foldl combine_minimax (init_minimax INIT) [push_bit 56 20 OR INIT, push_bit 56 30 OR INIT] \<and>
   foldl combine_tally (init_tally INIT) [score_tally INIT, init_tally 0] =
   foldl combine_tally (init_tally INIT) [init_tally 0, score_tally INIT]"
proof -
  have b: "getboard_minimax (init_minimax INIT) = INIT"
    by (simp add: getboard_minimax_def init_minimax_def INIT_def turn_odd_iff)
  have x: "\<forall>x\<in>set [push_bit 56 30 OR INIT, push_bit 56 20 OR INIT]. getboard_minimax x = INIT"
    by (simp add: getboard_minimax_def INIT_def)
  have p: "mset [push_bit 56 30 OR INIT, push_bit 56 20 OR INIT] =
           mset [push_bit 56 20 OR INIT, push_bit 56 30 OR (INIT :: u64)]"
    by (simp add: add_mset_commute)
  have q: "mset [score_tally INIT, init_tally 0] = mset [init_tally 0, score_tally INIT]"
    by (simp add: add_mset_commute)
  show ?thesis
    by (rule combine_fold_order_independent [OF p b x q])
qed







section \<open>The symmetries as bit permutations\<close>

lemma upt64:
  "[0..<64::nat] =
     [0, 1, 2, 3, 4, 5, 6, 7, 8, 9, 10, 11, 12, 13, 14, 15] @
     [16, 17, 18, 19, 20, 21, 22, 23, 24, 25, 26, 27, 28, 29, 30, 31] @
     [32, 33, 34, 35, 36, 37, 38, 39, 40, 41, 42, 43, 44, 45, 46, 47] @
     [48, 49, 50, 51, 52, 53, 54, 55, 56, 57, 58, 59, 60, 61, 62, 63]"
  by code_simp

lemma bit_transpose_all: "\<forall>n\<in>set [0..<64]. bit (transpose_b b) n = (n < 56 \<and> bit b (tperm n))"
  unfolding transpose_b_def tperm_def upt64
  by (simp add: bit_simps numeral_2_eq_2 [symmetric])

lemma bit_flipv_all: "\<forall>n\<in>set [0..<64]. bit (flipv b) n = (n < 56 \<and> bit b (fperm n))"
  unfolding flipv_def fperm_def upt64
  by (simp add: bit_simps numeral_2_eq_2 [symmetric])

lemma bit_u64_lt: "bit (w::u64) n \<Longrightarrow> n < 64"
  by (auto dest: bit_imp_le_length)

lemma bit_transpose: "bit (transpose_b b) n = (n < 56 \<and> bit b (tperm n))"
proof (cases "n < 64")
  case True
  then show ?thesis using bit_transpose_all [of b] by simp
next
  case False
  then show ?thesis by (auto dest: bit_u64_lt)
qed

lemma bit_flipv: "bit (flipv b) n = (n < 56 \<and> bit b (fperm n))"
proof (cases "n < 64")
  case True
  then show ?thesis using bit_flipv_all [of b] by simp
next
  case False
  then show ?thesis by (auto dest: bit_u64_lt)
qed

lemma perm_facts_all:
  "\<forall>n\<in>set [0..<64]. tperm (tperm n) = n \<and> fperm (fperm n) = n \<and>
      (tperm n < 56) = (n < 56) \<and> (fperm n < 56) = (n < 56) \<and>
      tperm (fperm (tperm (fperm (tperm (fperm (tperm (fperm n))))))) = n"
  by code_simp


lemma perm_facts:
  "tperm (tperm n) = n" "fperm (fperm n) = n"
  "(tperm n < 56) = (n < 56)" "(fperm n < 56) = (n < 56)"
  "tperm (fperm (tperm (fperm (tperm (fperm (tperm (fperm n))))))) = n"
proof -
  have "n < 64 \<or> 64 \<le> n" by arith
  then have "tperm (tperm n) = n \<and> fperm (fperm n) = n \<and>
      (tperm n < 56) = (n < 56) \<and> (fperm n < 56) = (n < 56) \<and>
      tperm (fperm (tperm (fperm (tperm (fperm (tperm (fperm n))))))) = n"
  proof
    assume "n < 64" then show ?thesis using perm_facts_all by simp
  next
    assume "64 \<le> n" then show ?thesis by (simp add: tperm_def fperm_def)
  qed
  then show "tperm (tperm n) = n" "fperm (fperm n) = n"
  "(tperm n < 56) = (n < 56)" "(fperm n < 56) = (n < 56)"
  "tperm (fperm (tperm (fperm (tperm (fperm (tperm (fperm n))))))) = n" by simp_all
qed

lemma lt56I: "(\<And>n. bit (w::u64) n \<Longrightarrow> n < 56) \<Longrightarrow> w < 2 ^ 56"
proof -
  assume a: "\<And>n. bit w n \<Longrightarrow> n < 56"
  have "w AND mask 56 = w" by (rule bit_eqI) (auto simp: bit_simps dest: a)
  moreover have "w AND mask 56 < 2 ^ 56" by (rule and_mask_less') simp
  ultimately show ?thesis by simp
qed

lemma transpose_lt: "transpose_b b < 2 ^ 56"
  by (rule lt56I) (simp add: bit_transpose)

lemma flipv_lt: "flipv b < 2 ^ 56"
  by (rule lt56I) (simp add: bit_flipv)


lemma transpose_transpose:
  assumes "b < 2 ^ 56" shows "transpose_b (transpose_b b) = b"
proof (rule bit_eqI)
  fix n
  have "bit b n \<Longrightarrow> n < 56" using assms by (rule bit_lt)
  then show "bit (transpose_b (transpose_b b)) n = bit b n"
    by (auto simp add: bit_transpose perm_facts)
qed

lemma flipv_flipv:
  assumes "b < 2 ^ 56" shows "flipv (flipv b) = b"
proof (rule bit_eqI)
  fix n
  have "bit b n \<Longrightarrow> n < 56" using assms by (rule bit_lt)
  then show "bit (flipv (flipv b)) n = bit b n"
    by (auto simp add: bit_flipv perm_facts)
qed

lemma rotate4:
  assumes "b < 2 ^ 56"
  shows "flipv (transpose_b (flipv (transpose_b (flipv (transpose_b (flipv (transpose_b b))))))) = b"
proof (rule bit_eqI)
  fix n
  have "bit b n \<Longrightarrow> n < 56" using assms by (rule bit_lt)
  then show "bit (flipv (transpose_b (flipv (transpose_b (flipv (transpose_b (flipv (transpose_b b)))))))) n = bit b n"
    by (auto simp add: bit_flipv bit_transpose perm_facts)
qed

section \<open>Canonical boards\<close>

lemma if_less_min: "(if c < b then c else b) = min c (b::u64)"
  by (auto simp: min_def)

lemma canonicalize_foldl: "canonicalize b = foldl min (hd (orbit8 b)) (tl (orbit8 b))"
  unfolding canonicalize_def orbit8_def Let_def if_less_min
  by (simp only: foldl.simps list.sel)

lemma foldl_min_in: "foldl min (a::u64) xs \<in> set (a # xs)"
  by (induction xs arbitrary: a) (auto simp: min_def)

lemma foldl_min_le_acc: "foldl min (a::u64) xs \<le> a"
proof (induction xs arbitrary: a)
  case Nil
  then show ?case by simp
next
  case (Cons y ys)
  have "foldl min (min a y) ys \<le> min a y" by (rule Cons.IH)
  then show ?case by (simp add: min_le_iff_disj)
qed

lemma foldl_min_le: "x \<in> set (a # xs) \<Longrightarrow> foldl min (a::u64) xs \<le> x"
proof (induction xs arbitrary: a)
  case Nil
  then show ?case by simp
next
  case (Cons y ys)
  have "foldl min (min a y) ys \<le> min a y" by (rule foldl_min_le_acc)
  then have "foldl min (min a y) ys \<le> a" "foldl min (min a y) ys \<le> y"
    by (simp_all add: min_le_iff_disj)
  then show ?case using Cons.prems Cons.IH [of "min a y"] by auto
qed

lemma orbit8_hd_tl: "hd (orbit8 b) # tl (orbit8 b) = orbit8 b"
  by (simp add: orbit8_def Let_def)

lemma canonicalize_in: "canonicalize b \<in> set (orbit8 b)"
  using foldl_min_in [of "hd (orbit8 b)" "tl (orbit8 b)"]
  by (simp only: canonicalize_foldl orbit8_hd_tl)

lemma canonicalize_le: "x \<in> set (orbit8 b) \<Longrightarrow> canonicalize b \<le> x"
  using foldl_min_le [of x "hd (orbit8 b)" "tl (orbit8 b)"]
  by (simp only: canonicalize_foldl orbit8_hd_tl)

lemma orbit8_closed:
  assumes "b < 2 ^ 56" "x \<in> set (orbit8 b)"
  shows "transpose_b x \<in> set (orbit8 b) \<and> flipv x \<in> set (orbit8 b)"
proof -
  note tt = transpose_transpose [OF transpose_lt] transpose_transpose [OF flipv_lt]
    transpose_transpose [OF assms(1)]
  note ff = flipv_flipv [OF transpose_lt] flipv_flipv [OF flipv_lt] flipv_flipv [OF assms(1)]
  have r: "flipv (transpose_b (flipv (transpose_b (flipv (transpose_b (flipv (transpose_b b))))))) = b"
    by (rule rotate4 [OF assms(1)])
  have fb: "flipv b = transpose_b (flipv (transpose_b (flipv (transpose_b (flipv (transpose_b b))))))"
    using arg_cong [OF r, of flipv] by (simp add: ff)
  from assms(2) have "x = b \<or> x = transpose_b b \<or> x = flipv (transpose_b b) \<or>
     x = transpose_b (flipv (transpose_b b)) \<or> x = flipv (transpose_b (flipv (transpose_b b))) \<or>
     x = transpose_b (flipv (transpose_b (flipv (transpose_b b)))) \<or>
     x = flipv (transpose_b (flipv (transpose_b (flipv (transpose_b b))))) \<or>
     x = transpose_b (flipv (transpose_b (flipv (transpose_b (flipv (transpose_b b))))))"
    by (simp add: orbit8_def Let_def)
  then show ?thesis
    by (elim disjE) (simp_all add: orbit8_def Let_def tt ff r fb)
qed

lemma sym_orbit_eq: assumes "b < 2 ^ 56" shows "sym_orbit b = set (orbit8 b)"
proof
  show "sym_orbit b \<subseteq> set (orbit8 b)"
  proof
    fix x assume "x \<in> sym_orbit b"
    then show "x \<in> set (orbit8 b)"
      by (induction rule: sym_orbit.induct) (simp_all add: orbit8_closed [OF assms], simp add: orbit8_def Let_def)
  qed
  show "set (orbit8 b) \<subseteq> sym_orbit b"
    by (auto simp: orbit8_def Let_def intro!: sym_orbit.intros)
qed

lemma sym_orbit_lt: "x \<in> sym_orbit b \<Longrightarrow> b < 2 ^ 56 \<Longrightarrow> x < 2 ^ 56"
  by (induction rule: sym_orbit.induct) (assumption | rule transpose_lt flipv_lt)+

lemma sym_orbit_trans: "y \<in> sym_orbit x \<Longrightarrow> x \<in> sym_orbit b \<Longrightarrow> y \<in> sym_orbit b"
  by (induction rule: sym_orbit.induct) (auto intro: sym_orbit.intros)

lemma sym_orbit_sym: "x \<in> sym_orbit b \<Longrightarrow> b < 2 ^ 56 \<Longrightarrow> b \<in> sym_orbit x"
proof (induction rule: sym_orbit.induct)
  case self
  show ?case by (rule sym_orbit.self)
next
  case (tr x)
  have "x < 2 ^ 56" using tr.hyps(1) tr.prems by (rule sym_orbit_lt)
  then have "x \<in> sym_orbit (transpose_b x)"
    using sym_orbit.tr [OF sym_orbit.self, of "transpose_b x"] by (simp add: transpose_transpose)
  then show ?case using tr sym_orbit_trans by blast
next
  case (fl x)
  have "x < 2 ^ 56" using fl.hyps(1) fl.prems by (rule sym_orbit_lt)
  then have "x \<in> sym_orbit (flipv x)"
    using sym_orbit.fl [OF sym_orbit.self, of "flipv x"] by (simp add: flipv_flipv)
  then show ?case using fl sym_orbit_trans by blast
qed

lemma sym_orbit_same:
  assumes "b < 2 ^ 56" "x \<in> sym_orbit b" shows "sym_orbit x = sym_orbit b"
  using assms sym_orbit_sym sym_orbit_trans by blast

lemma canonicalize_orbit:
  assumes "b < 2 ^ 56" "x \<in> sym_orbit b" shows "canonicalize x = canonicalize b"
proof -
  have x: "x < 2 ^ 56" using assms sym_orbit_lt by blast
  have e: "set (orbit8 x) = set (orbit8 b)"
    using sym_orbit_same [OF assms] sym_orbit_eq [OF x] sym_orbit_eq [OF assms(1)] by simp
  have "canonicalize x \<le> canonicalize b"
    using canonicalize_le [of "canonicalize b" x] canonicalize_in [of b] e by simp
  moreover have "canonicalize b \<le> canonicalize x"
    using canonicalize_le [of "canonicalize x" b] canonicalize_in [of x] e by simp
  ultimately show ?thesis by simp
qed

section \<open>Symmetry invariance of the canonical board\<close>

text \<open>Two boards evaluated step by step, for the concrete instances below.\<close>

lemma canon_a: "canonicalize 0x104000000000002 = 0x4000000000008"
proof -
  have s1: "transpose_b 0x104000000000002 = (0x4000000000020::u64)" by (simp add: transpose_b_def)
  have s2: "flipv 0x4000000000020 = (0x4000000008000::u64)" by (simp add: flipv_def)
  have s3: "transpose_b 0x4000000008000 = (0x4000000000008::u64)" by (simp add: transpose_b_def)
  have s4: "flipv 0x4000000000008 = (0x4000000800000::u64)" by (simp add: flipv_def)
  have s5: "transpose_b 0x4000000800000 = (0x4000000080000::u64)" by (simp add: transpose_b_def)
  have s6: "flipv 0x4000000080000 = (0x4000000000200::u64)" by (simp add: flipv_def)
  have s7: "transpose_b 0x4000000000200 = (0x4000000200000::u64)" by (simp add: transpose_b_def)
  have o: "orbit8 0x104000000000002 = [0x104000000000002, 0x4000000000020, 0x4000000008000, 0x4000000000008, 0x4000000800000, 0x4000000080000, 0x4000000000200, 0x4000000200000]"
    by (simp add: orbit8_def Let_def s1 s2 s3 s4 s5 s6 s7)
  show ?thesis unfolding canonicalize_foldl o by simp
qed

lemma canon_b: "canonicalize 0x4000000000020 = 0x4000000000002"
proof -
  have s1: "transpose_b 0x4000000000020 = (0x4000000000002::u64)" by (simp add: transpose_b_def)
  have s2: "flipv 0x4000000000002 = (0x4000000200000::u64)" by (simp add: flipv_def)
  have s3: "transpose_b 0x4000000200000 = (0x4000000000200::u64)" by (simp add: transpose_b_def)
  have s4: "flipv 0x4000000000200 = (0x4000000080000::u64)" by (simp add: flipv_def)
  have s5: "transpose_b 0x4000000080000 = (0x4000000800000::u64)" by (simp add: transpose_b_def)
  have s6: "flipv 0x4000000800000 = (0x4000000000008::u64)" by (simp add: flipv_def)
  have s7: "transpose_b 0x4000000000008 = (0x4000000008000::u64)" by (simp add: transpose_b_def)
  have o: "orbit8 0x4000000000020 = [0x4000000000020, 0x4000000000002, 0x4000000200000, 0x4000000000200, 0x4000000080000, 0x4000000800000, 0x4000000000008, 0x4000000008000]"
    by (simp add: orbit8_def Let_def s1 s2 s3 s4 s5 s6 s7)
  show ?thesis unfolding canonicalize_foldl o by simp
qed

lemma tr_a: "transpose_b 0x104000000000002 = 0x4000000000020" by (simp add: transpose_b_def)


text \<open>
  Claim C2, amended. For every 56-bit board \<open>b\<close>, the orbit of \<open>b\<close> under the group
  generated by \<open>transpose\<close> and \<open>flipv\<close> is the set of the eight boards that
  \<open>canonicalize\<close> visits; \<open>canonicalize b\<close> is a member of that orbit and is the
  smallest integer in it; and every member of the orbit, so every image of \<open>b\<close> under
  one of the eight symmetries, has the same canonical board.
\<close>

theorem canonicalize_least_of_orbit:
  assumes "b < 2 ^ 56"
  shows "sym_orbit b = set (orbit8 b) \<and>
         canonicalize b \<in> sym_orbit b \<and>
         (\<forall>x\<in>sym_orbit b. canonicalize b \<le> x) \<and>
         (\<forall>x\<in>sym_orbit b. canonicalize x = canonicalize b) \<and>
         canonicalize (transpose_b b) = canonicalize b \<and>
         canonicalize (flipv b) = canonicalize b"
  using sym_orbit_eq [OF assms] canonicalize_in [of b] canonicalize_le [of _ b]
    canonicalize_orbit [OF assms]
    sym_orbit.tr [OF sym_orbit.self, of b] sym_orbit.fl [OF sym_orbit.self, of b]
  by simp

theorem canonicalize_least_of_orbit_witness:
  "(0x4000000000020 :: u64) < 2 ^ 56 \<and>
   canonicalize 0x4000000000020 \<in> sym_orbit 0x4000000000020 \<and>
   canonicalize 0x4000000000020 = 0x4000000000002 \<and>
   canonicalize (transpose_b 0x4000000000020) = 0x4000000000002"
proof -
  have h: "(0x4000000000020 :: u64) < 2 ^ 56"
    by simp
  from canonicalize_least_of_orbit [OF h]
  have "canonicalize 0x4000000000020 \<in> sym_orbit 0x4000000000020"
    and "canonicalize (transpose_b 0x4000000000020) = canonicalize 0x4000000000020"
    by blast+
  then show ?thesis
    using h by (simp add: canon_b)
qed

text \<open>
  The claim as stated, for every \<open>uint64_t\<close>, fails for a value with a bit above the 56
  of a bitboard: \<open>transpose\<close> drops that bit, so the value itself is not among the images.
\<close>

theorem canonicalize_invariance_counterexample:
  "canonicalize (transpose_b 0x104000000000002) \<noteq> canonicalize 0x104000000000002"
  by (simp add: tr_a canon_a canon_b)

section \<open>Bits of the successor boards and masks\<close>

lemma who_eq: "who b = (if odd (drop_bit 50 b) then 0 else 1)"
  unfolding who_def by (simp add: mod_2_eq_odd)

lemma who_cases: "who b = 0 \<or> who b = 1"
  by (simp add: who_eq)

lemma blocks_all: "\<forall>i\<in>set [0..<25]. bit (blocks ! i) i \<and> blocks ! i < 2 ^ 25"
  by code_simp

lemma blocks_bit: "i < 25 \<Longrightarrow> bit (blocks ! i) i"
  using blocks_all by simp

lemma blocks_lt: "i < 25 \<Longrightarrow> bit (blocks ! i) k \<Longrightarrow> k < 25"
  using blocks_all bit_lt [of "blocks ! i" 25 k] by simp

lemma bit_and_1: "((w::u64) AND 1 \<noteq> 0) = bit w 0"
  by (simp add: and_one_eq bit_0 mod_2_eq_odd)

lemma valid_iff:
  "valid m i = (if drop_bit 50 m = 1 then i \<noteq> 12 else \<not> bit m (who m * 25 + i))"
  by (simp add: valid_def bit_and_1 bit_drop_bit_eq)

lemma bit_pass: "bit (pass b) k = (if k < 50 then bit b k else bit (drop_bit 50 b + 1) (k - 50) \<and> k < 64)"
  unfolding pass_def m50 by (auto simp: bit_simps)

lemma bit_place:
  "i < 25 \<Longrightarrow> bit (place b i) k =
     (if k < 50 then bit b k \<or> k = who b * 25 + i else bit (drop_bit 50 b + 1) (k - 50) \<and> k < 64)"
  unfolding place_def m50 using who_cases [of b] by (auto simp: bit_simps)

lemma bit_mask_b:
  "i < 25 \<Longrightarrow> bit (mask_b m i) k =
     (if k < 50 then bit m k \<or> k = who m * 25 + i \<or>
         ((1 - who m) * 25 \<le> k \<and> bit (blocks ! i) (k - (1 - who m) * 25))
      else bit (drop_bit 50 m + 1) (k - 50) \<and> k < 64)"
  unfolding mask_b_def m50 using who_cases [of m] by (auto simp: bit_simps dest: blocks_lt)

lemma turn_pass: "drop_bit 50 (pass b) = take_bit 14 (drop_bit 50 b + 1)"
  by (rule bit_eqI) (auto simp: bit_simps bit_pass)

lemma turn_place: "i < 25 \<Longrightarrow> drop_bit 50 (place b i) = take_bit 14 (drop_bit 50 b + 1)"
  by (rule bit_eqI) (auto simp: bit_simps bit_place)

lemma turn_mask_b: "i < 25 \<Longrightarrow> drop_bit 50 (mask_b b i) = take_bit 14 (drop_bit 50 b + 1)"
  by (rule bit_eqI) (auto simp: bit_simps bit_mask_b)

section \<open>The invariant of lockstep play\<close>

lemma unat_turn_succ: "unat (take_bit 14 ((w::u64) + 1)) = (unat w + 1) mod 16384"
  by (simp add: unsigned_take_bit_eq take_bit_eq_mod unat_word_ariths mod_mod_cancel)

lemma turn_one_start:
  assumes "n < 16384" and "(n + 1) mod 16384 = (1::nat)"
  shows "n = 0"
proof (cases "n + 1 < 16384")
  case True
  then show ?thesis using assms(2) by simp
next
  case False
  then have "n + 1 = 16384" using assms(1) by simp
  then show ?thesis using assms(2) by simp
qed

lemma bit_INIT: "bit INIT k = (k = 50)"
  unfolding INIT_def bit_push_bit_iff bit_1_iff by (auto simp: possible_bit_word)

lemma turn_INIT: "drop_bit 50 INIT = 1"
  by (simp add: INIT_def)

lemma who_INIT: "who INIT = 0"
  by (simp add: who_eq turn_INIT)

lemma who_cong: "drop_bit 50 b = drop_bit 50 m \<Longrightarrow> who b = who m"
  by (simp add: who_eq)

lemma place_inv:
  assumes i: "i < 25" and free: "\<not> bit b i" "\<not> bit b (25 + i)"
    and w: "who b = who m" and d: "planes_disjoint b" and f: "occupied_forbidden b m"
  shows "planes_disjoint (place b i) \<and> occupied_forbidden (place b i) (mask_b m i)"
proof -
  from who_cases [of m] show ?thesis
  proof
    assume m0: "who m = 0"
    then have b0: "who b = 0" using w by simp
    show ?thesis
      using i free d f blocks_bit [OF i]
      unfolding planes_disjoint_def occupied_forbidden_def
      by (auto simp: bit_place bit_mask_b m0 b0)
  next
    assume m1: "who m = 1"
    then have b1: "who b = 1" using w by simp
    show ?thesis
      using i free d f blocks_bit [OF i]
      unfolding planes_disjoint_def occupied_forbidden_def
      by (auto simp: bit_place bit_mask_b m1 b1)
  qed
qed

lemma pass_inv:
  assumes "planes_disjoint b" "occupied_forbidden b m"
  shows "planes_disjoint (pass b) \<and> occupied_forbidden (pass b) (pass m)"
  using assms unfolding planes_disjoint_def occupied_forbidden_def
  by (auto simp: bit_pass)


lemma INIT_inv: "planes_disjoint INIT \<and> occupied_forbidden INIT INIT"
  by (simp add: planes_disjoint_def occupied_forbidden_def bit_INIT)

lemma free_cell:
  assumes i: "i < 25" and f: "occupied_forbidden b m" and v: "\<not> bit m (who m * 25 + i)"
  shows "\<not> bit b i \<and> \<not> bit b (25 + i)"
  using assms who_cases [of m] unfolding occupied_forbidden_def by (auto simp: add.commute)

lemma lockstep_invariant:
  "lockstep n b m \<Longrightarrow> n \<le> 16384 \<Longrightarrow>
     drop_bit 50 b = drop_bit 50 m \<and> unat (drop_bit 50 b) = (n + 1) mod 16384 \<and>
     (n = 0 \<longrightarrow> b = INIT \<and> m = INIT) \<and> planes_disjoint b \<and> occupied_forbidden b m"
proof (induction rule: lockstep.induct)
  case start
  then show ?case by (simp add: INIT_inv turn_INIT)
next
  case (put n b m i)
  have n: "n < 16384" using put.prems by simp
  have "drop_bit 50 b = drop_bit 50 m \<and> unat (drop_bit 50 b) = (n + 1) mod 16384 \<and>
     (n = 0 \<longrightarrow> b = INIT \<and> m = INIT) \<and> planes_disjoint b \<and> occupied_forbidden b m"
    by (rule put.IH) (use n in simp)
  then have t: "drop_bit 50 b = drop_bit 50 m" and u: "unat (drop_bit 50 b) = (n + 1) mod 16384"
    and z: "n = 0 \<longrightarrow> b = INIT \<and> m = INIT" and d: "planes_disjoint b"
    and f: "occupied_forbidden b m"
    by blast+
  have free: "\<not> bit b i \<and> \<not> bit b (25 + i)"
  proof (cases "drop_bit 50 m = 1")
    case True
    then have "unat (drop_bit 50 b) = 1" using t by simp
    then have "(n + 1) mod 16384 = 1" using u by linarith
    then have "n = 0" using n by (rule turn_one_start [rotated])
    then show ?thesis using z put.hyps(2) by (simp add: bit_INIT)
  next
    case False
    then have "\<not> bit m (who m * 25 + i)" using put.hyps(3) by (simp add: valid_iff)
    then show ?thesis using free_cell [OF put.hyps(2) f] by simp
  qed
  have "planes_disjoint (place b i) \<and> occupied_forbidden (place b i) (mask_b m i)"
    using place_inv [OF put.hyps(2) _ _ who_cong [OF t] d f] free by simp
  moreover have "drop_bit 50 (place b i) = drop_bit 50 (mask_b m i)"
    using put.hyps(2) t by (simp add: turn_place turn_mask_b)
  moreover have "unat (drop_bit 50 (place b i)) = (Suc n + 1) mod 16384"
    using put.hyps(2) u by (simp add: turn_place unat_turn_succ mod_Suc_eq)
  ultimately show ?case by simp
next
  case (skip n b m)
  have "drop_bit 50 b = drop_bit 50 m \<and> unat (drop_bit 50 b) = (n + 1) mod 16384 \<and>
     (n = 0 \<longrightarrow> b = INIT \<and> m = INIT) \<and> planes_disjoint b \<and> occupied_forbidden b m"
    by (rule skip.IH) (use skip.prems in simp)
  then have t: "drop_bit 50 b = drop_bit 50 m" and u: "unat (drop_bit 50 b) = (n + 1) mod 16384"
    and d: "planes_disjoint b" and f: "occupied_forbidden b m"
    by blast+
  have "planes_disjoint (pass b) \<and> occupied_forbidden (pass b) (pass m)"
    using pass_inv [OF d f] .
  moreover have "drop_bit 50 (pass b) = drop_bit 50 (pass m)"
    using t by (simp add: turn_pass)
  moreover have "unat (drop_bit 50 (pass b)) = (Suc n + 1) mod 16384"
    using u by (simp add: turn_pass unat_turn_succ mod_Suc_eq)
  ultimately show ?case by simp
qed

lemma unat_turn_lt: "unat (drop_bit 50 (b::u64)) < 16384"
proof -
  have "unat b < 2 ^ 64" using unsigned_less [of b] by simp
  then have "unat b div 2 ^ 50 < 2 ^ 14" by (simp add: less_mult_imp_div_less)
  then show ?thesis by (simp add: drop_bit_eq_div unat_div)
qed

lemma pass_pow:
  "unat (drop_bit 50 ((pass ^^ k) b)) = (unat (drop_bit 50 b) + k) mod 16384 \<and>
   (\<forall>j<50. bit ((pass ^^ k) b) j = bit b j)"
proof (induction k)
  case 0
  then show ?case using unat_turn_lt [of b] by simp
next
  case (Suc k)
  then show ?case by (simp add: turn_pass bit_pass unat_turn_succ mod_Suc_eq)
qed

lemma lockstep_passes: "lockstep n b m \<Longrightarrow> lockstep (n + k) ((pass ^^ k) b) ((pass ^^ k) m)"
  by (induction k) (auto intro: lockstep.skip)

lemma turn_eq_1I: "unat (w::u64) = 1 \<Longrightarrow> w = 1"
  using word_unat_eq_iff [of w 1] by simp

lemma two_plies: "lockstep 2 (place (place INIT 0) 24) (mask_b (mask_b INIT 0) 24)"
proof -
  have v0: "valid INIT 0"
    by (simp add: valid_iff turn_INIT)
  have l1: "lockstep (Suc 0) (place INIT 0) (mask_b INIT 0)"
    by (rule lockstep.put [OF lockstep.start _ v0]) simp
  have t1: "drop_bit 50 (mask_b INIT 0) = 2"
    by (simp add: turn_mask_b turn_INIT)
  have v1: "valid (mask_b INIT 0) 24"
    by (simp add: valid_iff t1 who_eq bit_mask_b bit_INIT turn_INIT blocks_def)
  have "lockstep (Suc (Suc 0)) (place (place INIT 0) 24) (mask_b (mask_b INIT 0) 24)"
    by (rule lockstep.put [OF l1 _ v1]) simp
  then show ?thesis by (simp add: numeral_2_eq_2)
qed

text \<open>
  Claim C6, amended. Every board with its mask reached from \<open>(INIT, INIT)\<close> in at most
  16384 plies of lockstep play (pieces on cells that \<open>valid\<close> accepts, and passes) has
  disjoint planes, has every occupied cell forbidden in both planes of the mask, and has
  the turn field of the mask.
\<close>

theorem lockstep_data_model:
  assumes "lockstep n b m" and "n \<le> 16384"
  shows "planes_disjoint b \<and> occupied_forbidden b m \<and> drop_bit 50 b = drop_bit 50 m"
  using lockstep_invariant [OF assms] by simp

theorem lockstep_data_model_witness:
  "lockstep 2 (place (place INIT 0) 24) (mask_b (mask_b INIT 0) 24) \<and> (2::nat) \<le> 16384 \<and>
   planes_disjoint (place (place INIT 0) 24) \<and>
   occupied_forbidden (place (place INIT 0) 24) (mask_b (mask_b INIT 0) 24) \<and>
   drop_bit 50 (place (place INIT 0) 24) = drop_bit 50 (mask_b (mask_b INIT 0) 24)"
proof -
  have n: "(2::nat) \<le> 16384"
    by simp
  show ?thesis
    using two_plies n lockstep_data_model [OF two_plies n] by simp
qed

text \<open>
  The claim as stated, with any number of passes, fails once the turn field has wrapped
  around to 1: \<open>valid\<close> then accepts every cell but the centre, whatever the mask says.
  After a piece of each player and 16382 passes, the first player may take the cell of
  the second.
\<close>

theorem lockstep_wrap_counterexample:
  "lockstep 16385 (place ((pass ^^ 16382) (place (place INIT 0) 24)) 24)
     (mask_b ((pass ^^ 16382) (mask_b (mask_b INIT 0) 24)) 24) \<and>
   \<not> planes_disjoint (place ((pass ^^ 16382) (place (place INIT 0) 24)) 24)"
proof -
  let ?b2 = "place (place INIT 0) 24" and ?m2 = "mask_b (mask_b INIT 0) 24"
  let ?b = "(pass ^^ 16382) ?b2" and ?m = "(pass ^^ 16382) ?m2"
  have t1: "drop_bit 50 (place INIT 0) = 2"
    by (simp add: turn_place turn_INIT)
  have tb2: "unat (drop_bit 50 ?b2) = 3"
    by (simp add: turn_place turn_INIT)
  have tm2: "unat (drop_bit 50 ?m2) = 3"
    by (simp add: turn_mask_b turn_INIT)
  have tb: "drop_bit 50 ?b = 1"
    using pass_pow [of 16382 ?b2] tb2 by (intro turn_eq_1I) simp
  have tm: "drop_bit 50 ?m = 1"
    using pass_pow [of 16382 ?m2] tm2 by (intro turn_eq_1I) simp
  have l: "lockstep (2 + 16382) ?b ?m"
    by (rule lockstep_passes [OF two_plies])
  have v: "valid ?m 24"
    by (simp add: valid_iff tm)
  have "lockstep (Suc (2 + 16382)) (place ?b 24) (mask_b ?m 24)"
    by (rule lockstep.put [OF l _ v]) simp
  then have r: "lockstep 16385 (place ?b 24) (mask_b ?m 24)"
    by simp
  have "bit ?b 49"
    using pass_pow [of 16382 ?b2] by (simp add: bit_place who_eq t1)
  then have "bit (place ?b 24) 24 \<and> bit (place ?b 24) (25 + 24)"
    by (simp add: bit_place who_eq tb)
  then have "\<not> planes_disjoint (place ?b 24)"
    by (auto simp: planes_disjoint_def intro!: exI [of _ 24])
  then show ?thesis using r by simp
qed

section \<open>Legal play\<close>

lemma full_plane: "((w::u64) AND 0x1ffffff = 0x1ffffff) = (\<forall>i<25. bit w i)"
  unfolding m25
proof
  assume a: "w AND mask 25 = mask 25"
  show "\<forall>i<25. bit w i"
  proof (intro allI impI)
    fix i :: nat assume "i < 25"
    then have "bit (mask 25 :: u64) i" by (simp add: bit_simps)
    then show "bit w i" using a by (metis bit_and_iff)
  qed
next
  assume "\<forall>i<25. bit w i"
  then show "w AND mask 25 = mask 25"
    by (intro bit_eqI) (auto simp: bit_simps)
qed

lemma nomoves_iff:
  "nomoves b m = (\<forall>i<25. bit b (who b * 25 + i) \<or> bit m (who b * 25 + i))"
  unfolding nomoves_def full_plane by (simp add: bit_simps)

lemma iscomplete_iff:
  "iscomplete b m = ((\<forall>i<25. bit b (25 + i) \<or> bit m (25 + i)) \<and> (\<forall>i<25. bit b i \<or> bit m i))"
  unfolding iscomplete_def full_plane by (simp add: bit_simps)

lemma who_pass: "who (pass b) = 1 - who b"
proof -
  have "odd (take_bit 14 (drop_bit 50 b + 1)) = even (drop_bit 50 b)"
    by (simp add: even_take_bit_eq)
  then show ?thesis by (simp add: who_eq turn_pass)
qed

lemma nomoves_pass:
  assumes "nomoves b m" "\<not> iscomplete b m"
  shows "\<not> nomoves (pass b) (pass m)"
  using assms who_cases [of b]
  by (auto simp: nomoves_iff iscomplete_iff who_pass bit_pass)

lemma pieces_le: "pieces b \<le> 25"
proof -
  have "{i. i < 25 \<and> (bit b i \<or> bit b (25 + i))} \<subseteq> {..<25}" by auto
  then have "card {i. i < 25 \<and> (bit b i \<or> bit b (25 + i))} \<le> card {..<25::nat}"
    by (intro card_mono) simp_all
  then show ?thesis by (simp add: pieces_def)
qed

lemma pieces_pass: "pieces (pass b) = pieces b"
proof -
  have "{i. i < 25 \<and> (bit (pass b) i \<or> bit (pass b) (25 + i))} =
        {i. i < 25 \<and> (bit b i \<or> bit b (25 + i))}"
    by (auto simp: bit_pass)
  then show ?thesis by (simp add: pieces_def)
qed

lemma pieces_place:
  assumes i: "i < 25" and free: "\<not> bit b i" "\<not> bit b (25 + i)"
  shows "pieces (place b i) = Suc (pieces b)"
proof -
  have "{j. j < 25 \<and> (bit (place b i) j \<or> bit (place b i) (25 + j))} =
        insert i {j. j < 25 \<and> (bit b j \<or> bit b (25 + j))}"
    using i who_cases [of b] by (auto simp: bit_place)
  moreover have "i \<notin> {j. j < 25 \<and> (bit b j \<or> bit b (25 + j))}"
    using free by simp
  moreover have "finite {j. j < 25 \<and> (bit b j \<or> bit b (25 + j))}"
    by simp
  ultimately show ?thesis by (simp add: pieces_def)
qed


lemma valid_free:
  assumes l: "lockstep n b m" and n: "n < 16384" and i: "i < 25" and v: "valid m i"
  shows "\<not> bit b i \<and> \<not> bit b (25 + i)"
proof -
  have inv: "drop_bit 50 b = drop_bit 50 m \<and> unat (drop_bit 50 b) = (n + 1) mod 16384 \<and>
     (n = 0 \<longrightarrow> b = INIT \<and> m = INIT) \<and> planes_disjoint b \<and> occupied_forbidden b m"
    by (rule lockstep_invariant [OF l]) (use n in simp)
  show ?thesis
  proof (cases "drop_bit 50 m = 1")
    case True
    then have "unat (drop_bit 50 b) = 1" using inv by simp
    then have "(n + 1) mod 16384 = 1" using inv by linarith
    then have "n = 0" using n by (rule turn_one_start [rotated])
    then show ?thesis using inv i by (simp add: bit_INIT)
  next
    case False
    then have "\<not> bit m (who m * 25 + i)" using v by (simp add: valid_iff)
    then show ?thesis using free_cell [OF i _ ] inv by blast
  qed
qed

lemma legal_lockstep:
  "legal b m \<Longrightarrow>
     \<exists>n. lockstep n b m \<and> (n \<le> 2 * pieces b \<or> n \<le> 2 * pieces b + 1 \<and> \<not> nomoves b m)"
proof (induction rule: legal.induct)
  case start
  have "lockstep 0 INIT INIT \<and> 0 \<le> 2 * pieces INIT"
    by (simp add: lockstep.start)
  then show ?case by blast
next
  case (put b m i)
  then obtain n where l: "lockstep n b m" and b: "n \<le> 2 * pieces b + 1"
    by auto
  have n: "n < 16384" using b pieces_le [of b] by simp
  have "pieces (place b i) = Suc (pieces b)"
    using valid_free [OF l n put.hyps(3,4)] pieces_place [OF put.hyps(3)] by simp
  then have "Suc n \<le> 2 * pieces (place b i)" using b by simp
  moreover have "lockstep (Suc n) (place b i) (mask_b m i)"
    by (rule lockstep.put [OF l put.hyps(3,4)])
  ultimately show ?case by blast
next
  case (skip b m)
  then obtain n where l: "lockstep n b m" and b: "n \<le> 2 * pieces b"
    by auto
  have "Suc n \<le> 2 * pieces (pass b) + 1" using b by (simp add: pieces_pass)
  moreover have "\<not> nomoves (pass b) (pass m)"
    by (rule nomoves_pass [OF skip.hyps(3,2)])
  moreover have "lockstep (Suc n) (pass b) (pass m)"
    by (rule lockstep.skip [OF l])
  ultimately show ?case by blast
qed

lemma legal_plies: "legal b m \<Longrightarrow> \<exists>n\<le>51. lockstep n b m"
proof -
  assume "legal b m"
  then obtain n where "lockstep n b m" "n \<le> 2 * pieces b + 1"
    using legal_lockstep by fastforce
  then show ?thesis using pieces_le [of b] by (intro exI [of _ n]) simp
qed

section \<open>The end of the game\<close>

text \<open>A game of twelve plies that ends with both players unable to move.\<close>

lemma complete_game: "legal 0x34158024a009a0 0x37ffffffffffff"
proof -
  note d = place_def mask_b_def pass_def who_def valid_def iscomplete_def nomoves_def blocks_def
  have s0: "legal 0x4000000000000 0x4000000000000"
    using legal.start by (simp add: INIT_def)
  have s1: "legal 0x8000000000800 0x8023880000800"
    using legal.put [OF s0, of 11] by (simp add: d)
  have s2: "legal 0xc010000000800 0xc033880118c00"
    using legal.put [OF s1, of 15] by (simp add: d)
  have s3: "legal 0x10010000800800 0x138b3880918c00"
    using legal.put [OF s2, of 23] by (simp add: d)
  have s4: "legal 0x14110000800800 0x179b38819dcc00"
    using legal.put [OF s3, of 19] by (simp add: d)
  have s5: "legal 0x18110000800820 0x1b9b38c39dcc20"
    using legal.put [OF s4, of 5] by (simp add: d)
  have s6: "legal 0x1c118000800820 0x1f9bb8c39dee20"
    using legal.put [OF s5, of 14] by (simp add: d)
  have s7: "legal 0x201180008008a0 0x239bbbcb9deea0"
    using legal.put [OF s6, of 7] by (simp add: d)
  have s8: "legal 0x241180048008a0 0x279bbbcf9deee7"
    using legal.put [OF s7, of 1] by (simp add: d)
  have s9: "legal 0x281180048009a0 0x2b9bffdf9defe7"
    using legal.put [OF s8, of 8] by (simp add: d)
  have s10: "legal 0x2c1180248009a0 0x2f9bffff9defff"
    using legal.put [OF s9, of 4] by (simp add: d)
  have s11: "legal 0x30118024a009a0 0x33fbffffbdefff"
    using legal.put [OF s10, of 21] by (simp add: d)
  have s12: "legal 0x34158024a009a0 0x37ffffffffffff"
    using legal.put [OF s11, of 17] by (simp add: d)
  show ?thesis by (rule s12)
qed

text \<open>
  Claim C4. For every board and mask reached by legal play from \<open>(INIT, INIT)\<close>: if
  \<open>iscomplete\<close> holds, \<open>valid\<close> rejects every cell \<open>i < 25\<close>, so the mover has no
  move.
\<close>

theorem complete_no_valid_cell:
  assumes "legal b m" and "iscomplete b m"
  shows "\<not> (\<exists>i<25. valid m i)"
proof -
  obtain n where n: "n \<le> 51" and l: "lockstep n b m"
    using legal_plies [OF assms(1)] by blast
  have inv: "drop_bit 50 b = drop_bit 50 m \<and> unat (drop_bit 50 b) = (n + 1) mod 16384 \<and>
     (n = 0 \<longrightarrow> b = INIT \<and> m = INIT) \<and> planes_disjoint b \<and> occupied_forbidden b m"
    by (rule lockstep_invariant [OF l]) (use n in simp)
  have e: "drop_bit 50 b = drop_bit 50 m" and u: "unat (drop_bit 50 b) = (n + 1) mod 16384"
    and z: "n = 0 \<longrightarrow> b = INIT \<and> m = INIT" and f: "occupied_forbidden b m"
    using inv by blast+
  have "\<not> iscomplete INIT INIT"
    by (auto simp: iscomplete_iff bit_INIT intro: exI [of _ 0])
  then have n0: "n \<noteq> 0" using z assms(2) by blast
  have "n + 1 < 16384" using n by simp
  then have "(n + 1) mod 16384 = n + 1" by (rule mod_less)
  then have "unat (drop_bit 50 m) = n + 1" using e u by simp
  then have "unat (drop_bit 50 m) \<noteq> 1" using n0 by simp
  then have t: "drop_bit 50 m \<noteq> 1" by auto
  have "\<not> valid m i" if i: "i < 25" for i
  proof -
    have c: "(bit b (25 + i) \<or> bit m (25 + i)) \<and> (bit b i \<or> bit m i)"
      using assms(2) i by (simp add: iscomplete_iff)
    have o: "bit b i \<or> bit b (25 + i) \<longrightarrow> bit m i \<and> bit m (25 + i)"
      using f i by (simp add: occupied_forbidden_def)
    have "bit m i \<and> bit m (25 + i)" using c o by blast
    then have "bit m (who m * 25 + i)"
      using who_cases [of m] by (auto simp: add.commute)
    then show ?thesis using t by (simp add: valid_iff)
  qed
  then show ?thesis by blast
qed

theorem complete_no_valid_cell_witness:
  "legal 0x34158024a009a0 0x37ffffffffffff \<and> iscomplete 0x34158024a009a0 0x37ffffffffffff \<and>
   \<not> (\<exists>i<25. valid 0x37ffffffffffff i)"
proof -
  have c: "iscomplete 0x34158024a009a0 0x37ffffffffffff"
    by (simp add: iscomplete_def)
  show ?thesis
    using complete_game c complete_no_valid_cell [OF complete_game c] by simp
qed

end
